theory Spec2Isabelle
  imports Main
begin

section \<open>Data model\<close>

text \<open>
  The Python exceptions that the modelled code can raise: an out-of-range list
  subscript, an ordering comparison between an integer and \<open>None\<close>, a reference to an
  unbound name, and a missing dictionary key.
\<close>

datatype error = IndexError | TypeError | NameError | KeyError

text \<open>
  \<open>class Index\<close>: three integer components and an optional block. Python integers are
  unbounded, so they are \<open>int\<close>.
\<close>

record Index =
  sura :: int
  verse :: int
  word :: int
  block :: "int option"

text \<open>\<open>class Block\<close>: four strings and the index of the token.\<close>

record Block =
  grapheme_ar :: string
  grapheme_lt :: string
  archigrapheme_ar :: string
  archigrapheme_lt :: string
  index :: Index

text \<open>
  The loaded JSON document: \<open>data["indexes"]\<close> is a four-level nested list whose
  innermost entries are block ids, \<open>data["blocks"]\<close> the flat list of 4-tuples of
  strings that the ids point into.
\<close>

record data =
  indexes :: "int list list list list"
  blocks :: "(string \<times> string \<times> string \<times> string) list"

section \<open>Python primitives\<close>

text \<open>
  List subscription \<open>xs[i]\<close>: a negative subscript counts from the end of the list,
  anything outside \<open>-len(xs) .. len(xs)-1\<close> raises IndexError.
\<close>

definition py_index :: "'a list \<Rightarrow> int \<Rightarrow> error + 'a" where
  "py_index xs i =
     (if 0 \<le> i \<and> i < int (length xs) then Inr (xs ! nat i)
      else if - int (length xs) \<le> i \<and> i < 0 then Inr (xs ! nat (int (length xs) + i))
      else Inl IndexError)"

text \<open>\<open>range(len(xs))\<close>, as the list of the integers it runs through.\<close>

definition range_len :: "'a list \<Rightarrow> int list" where
  "range_len xs = [0..int (length xs) - 1]"

text \<open>
  \<open>a < b\<close> and \<open>a > b\<close> where \<open>b\<close> is an \<open>int | None\<close>: comparing an integer with
  \<open>None\<close> raises TypeError.
\<close>

definition py_less :: "int \<Rightarrow> int option \<Rightarrow> error + bool" where
  "py_less a b = (case b of None \<Rightarrow> Inl TypeError | Some b' \<Rightarrow> Inr (a < b'))"

definition py_greater :: "int \<Rightarrow> int option \<Rightarrow> error + bool" where
  "py_greater a b = (case b of None \<Rightarrow> Inl TypeError | Some b' \<Rightarrow> Inr (a > b'))"

section \<open>The extraction generator of the package (qrn/mushaf.py)\<close>

text \<open>
  The subscript chains \<open>data["indexes"][isura]\<close>, \<open>data["indexes"][isura][iverse]\<close>
  and \<open>data["indexes"][isura][iverse][iword]\<close>.
\<close>

definition get_sura :: "data \<Rightarrow> int \<Rightarrow> error + int list list list" where
  "get_sura d isura = py_index (indexes d) isura"

definition get_verse :: "data \<Rightarrow> int \<Rightarrow> int \<Rightarrow> error + int list list" where
  "get_verse d isura iverse =
     (case get_sura d isura of Inl e \<Rightarrow> Inl e | Inr vs \<Rightarrow> py_index vs iverse)"

definition get_word :: "data \<Rightarrow> int \<Rightarrow> int \<Rightarrow> int \<Rightarrow> error + int list" where
  "get_word d isura iverse iword =
     (case get_verse d isura iverse of Inl e \<Rightarrow> Inl e | Inr ws \<Rightarrow> py_index ws iword)"

text \<open>
  Lines 70 to 85: the block id is read from the indexes, the 4-tuple from the blocks,
  and the record is built with every loop index incremented by one.
\<close>

definition make_block :: "data \<Rightarrow> int \<Rightarrow> int \<Rightarrow> int \<Rightarrow> int \<Rightarrow> error + Block" where
  "make_block d isura iverse iword iblock =
     (case get_word d isura iverse iword of
        Inl e \<Rightarrow> Inl e
      | Inr bs \<Rightarrow>
          (case py_index bs iblock of
             Inl e \<Rightarrow> Inl e
           | Inr block_index \<Rightarrow>
               (case py_index (blocks d) block_index of
                  Inl e \<Rightarrow> Inl e
                | Inr (graph_ar, graph_lt, arch_ar, arch_lt) \<Rightarrow>
                    Inr \<lparr>grapheme_ar = graph_ar, grapheme_lt = graph_lt,
                         archigrapheme_ar = arch_ar, archigrapheme_lt = arch_lt,
                         index = \<lparr>sura = isura + 1, verse = iverse + 1,
                                  word = iword + 1, block = Some (iblock + 1)\<rparr>\<rparr>)))"

text \<open>
  The skip-checks (\<open>continue\<close>) and stop-checks (\<open>return\<close>) of the three inner loops,
  lines 53, 55, 58, 60, 63 and 66. \<open>and\<close> evaluates from left to right and stops at
  the first false operand, so the block comparison, the only one that can raise, is
  reached only when the three equalities hold.
\<close>

definition skip_verse :: "Index \<Rightarrow> int \<Rightarrow> int \<Rightarrow> bool" where
  "skip_verse ini_ind isura iverse \<longleftrightarrow> isura = sura ini_ind \<and> iverse < verse ini_ind"

definition stop_verse :: "Index \<Rightarrow> int \<Rightarrow> int \<Rightarrow> bool" where
  "stop_verse end_ind isura iverse \<longleftrightarrow> isura = sura end_ind \<and> iverse > verse end_ind"

definition skip_word :: "Index \<Rightarrow> int \<Rightarrow> int \<Rightarrow> int \<Rightarrow> bool" where
  "skip_word ini_ind isura iverse iword \<longleftrightarrow>
     isura = sura ini_ind \<and> iverse = verse ini_ind \<and> iword < word ini_ind"

definition stop_word :: "Index \<Rightarrow> int \<Rightarrow> int \<Rightarrow> int \<Rightarrow> bool" where
  "stop_word end_ind isura iverse iword \<longleftrightarrow>
     isura = sura end_ind \<and> iverse = verse end_ind \<and> iword > word end_ind"

definition skip_block :: "Index \<Rightarrow> int \<Rightarrow> int \<Rightarrow> int \<Rightarrow> int \<Rightarrow> error + bool" where
  "skip_block ini_ind isura iverse iword iblock =
     (if isura = sura ini_ind \<and> iverse = verse ini_ind \<and> iword = word ini_ind
      then py_less iblock (block ini_ind) else Inr False)"

definition stop_block :: "Index \<Rightarrow> int \<Rightarrow> int \<Rightarrow> int \<Rightarrow> int \<Rightarrow> error + bool" where
  "stop_block end_ind isura iverse iword iblock =
     (if isura = sura end_ind \<and> iverse = verse end_ind \<and> iword = word end_ind
      then py_greater iblock (block end_ind) else Inr False)"

text \<open>
  A loop of the generator hands back the records it yielded and how it ended: it ran
  through its range (\<open>Next\<close>), the generator executed \<open>return\<close>, or an exception
  left it.
\<close>

datatype flow = Next | Return | Raise error

text \<open>The loop over \<open>iblock\<close>, lines 62 to 85.\<close>

fun block_loop ::
  "data \<Rightarrow> Index \<Rightarrow> Index \<Rightarrow> int \<Rightarrow> int \<Rightarrow> int \<Rightarrow> int list \<Rightarrow> Block list \<times> flow" where
  "block_loop d ini_ind end_ind isura iverse iword [] = ([], Next)"
| "block_loop d ini_ind end_ind isura iverse iword (iblock # rest) =
     (case skip_block ini_ind isura iverse iword iblock of
        Inl e \<Rightarrow> ([], Raise e)
      | Inr skip \<Rightarrow>
          if skip then block_loop d ini_ind end_ind isura iverse iword rest
          else
            (case stop_block end_ind isura iverse iword iblock of
               Inl e \<Rightarrow> ([], Raise e)
             | Inr stop \<Rightarrow>
                 if stop then ([], Return)
                 else
                   (case make_block d isura iverse iword iblock of
                      Inl e \<Rightarrow> ([], Raise e)
                    | Inr b \<Rightarrow>
                        (case block_loop d ini_ind end_ind isura iverse iword rest of
                           (ys, fl) \<Rightarrow> (b # ys, fl)))))"

text \<open>
  What a loop does with the outcome of the loop nested in it: it goes on with its own
  next iteration after \<open>Next\<close>, and is left at once by a \<open>return\<close> or an exception.
\<close>

definition and_then :: "Block list \<times> flow \<Rightarrow> Block list \<times> flow \<Rightarrow> Block list \<times> flow" where
  "and_then r k =
     (case r of
        (ys, Next) \<Rightarrow> (case k of (zs, fl) \<Rightarrow> (ys @ zs, fl))
      | (ys, fl) \<Rightarrow> (ys, fl))"

text \<open>The loop over \<open>iword\<close>, lines 57 to 61.\<close>

fun word_loop ::
  "data \<Rightarrow> Index \<Rightarrow> Index \<Rightarrow> int \<Rightarrow> int \<Rightarrow> int list \<Rightarrow> Block list \<times> flow" where
  "word_loop d ini_ind end_ind isura iverse [] = ([], Next)"
| "word_loop d ini_ind end_ind isura iverse (iword # rest) =
     (if skip_word ini_ind isura iverse iword
      then word_loop d ini_ind end_ind isura iverse rest
      else if stop_word end_ind isura iverse iword then ([], Return)
      else
        (case get_word d isura iverse iword of
           Inl e \<Rightarrow> ([], Raise e)
         | Inr bs \<Rightarrow>
             and_then (block_loop d ini_ind end_ind isura iverse iword (range_len bs))
               (word_loop d ini_ind end_ind isura iverse rest)))"

text \<open>The loop over \<open>iverse\<close>, lines 52 to 56.\<close>

fun verse_loop ::
  "data \<Rightarrow> Index \<Rightarrow> Index \<Rightarrow> int \<Rightarrow> int list \<Rightarrow> Block list \<times> flow" where
  "verse_loop d ini_ind end_ind isura [] = ([], Next)"
| "verse_loop d ini_ind end_ind isura (iverse # rest) =
     (if skip_verse ini_ind isura iverse
      then verse_loop d ini_ind end_ind isura rest
      else if stop_verse end_ind isura iverse then ([], Return)
      else
        (case get_verse d isura iverse of
           Inl e \<Rightarrow> ([], Raise e)
         | Inr ws \<Rightarrow>
             and_then (word_loop d ini_ind end_ind isura iverse (range_len ws))
               (verse_loop d ini_ind end_ind isura rest)))"

text \<open>The loop over \<open>isura\<close>, line 51.\<close>

fun sura_loop :: "data \<Rightarrow> Index \<Rightarrow> Index \<Rightarrow> int list \<Rightarrow> Block list \<times> flow" where
  "sura_loop d ini_ind end_ind [] = ([], Next)"
| "sura_loop d ini_ind end_ind (isura # rest) =
     (case get_sura d isura of
        Inl e \<Rightarrow> ([], Raise e)
      | Inr vs \<Rightarrow>
          and_then (verse_loop d ini_ind end_ind isura (range_len vs))
            (sura_loop d ini_ind end_ind rest))"

text \<open>
  What the consumer of a generator sees once it has drained it: the records, and the
  exception that ended the iteration, if one did.
\<close>

definition drained :: "'a list \<times> flow \<Rightarrow> 'a list \<times> error option" where
  "drained r = (case r of (ys, Raise e) \<Rightarrow> (ys, Some e) | (ys, _) \<Rightarrow> (ys, None))"

text \<open>
  \<open>_extract_seq(data, ini_ind, end_ind)\<close>: the sura loop runs over
  \<open>range(ini_sura, end_sura+1)\<close>.
\<close>

definition extract_seq :: "data \<Rightarrow> Index \<Rightarrow> Index \<Rightarrow> Block list \<times> error option" where
  "extract_seq d ini_ind end_ind =
     drained (sura_loop d ini_ind end_ind [sura ini_ind..sura end_ind])"


section \<open>The extraction generator of the standalone script (src/mushaf.py)\<close>

text \<open>
  \<open>class IndexRange\<close>: the pair of the two indexes. Its second field is called
  \<open>end\<close> in the source, a reserved word here.
\<close>

record IndexRange =
  ini :: Index
  fin :: Index

text \<open>
  Line 141 of src/mushaf.py, the stop-check of the word loop: the current verse is
  compared with \<open>ini_verse\<close>.
\<close>

definition standalone_stop_word :: "IndexRange \<Rightarrow> int \<Rightarrow> int \<Rightarrow> int \<Rightarrow> bool" where
  "standalone_stop_word ind isura iverse iword \<longleftrightarrow>
     isura = sura (fin ind) \<and> iverse = verse (ini ind) \<and> iword > word (fin ind)"

text \<open>
  The loops of lines 132 to 166. The block loop (lines 143 to 166) is the same text
  as lines 62 to 85 of the package, so \<open>block_loop\<close> stands for it.
\<close>

fun standalone_word_loop ::
  "data \<Rightarrow> IndexRange \<Rightarrow> int \<Rightarrow> int \<Rightarrow> int list \<Rightarrow> Block list \<times> flow" where
  "standalone_word_loop d ind isura iverse [] = ([], Next)"
| "standalone_word_loop d ind isura iverse (iword # rest) =
     (if skip_word (ini ind) isura iverse iword
      then standalone_word_loop d ind isura iverse rest
      else if standalone_stop_word ind isura iverse iword then ([], Return)
      else
        (case get_word d isura iverse iword of
           Inl e \<Rightarrow> ([], Raise e)
         | Inr bs \<Rightarrow>
             and_then (block_loop d (ini ind) (fin ind) isura iverse iword (range_len bs))
               (standalone_word_loop d ind isura iverse rest)))"

fun standalone_verse_loop ::
  "data \<Rightarrow> IndexRange \<Rightarrow> int \<Rightarrow> int list \<Rightarrow> Block list \<times> flow" where
  "standalone_verse_loop d ind isura [] = ([], Next)"
| "standalone_verse_loop d ind isura (iverse # rest) =
     (if skip_verse (ini ind) isura iverse
      then standalone_verse_loop d ind isura rest
      else if stop_verse (fin ind) isura iverse then ([], Return)
      else
        (case get_verse d isura iverse of
           Inl e \<Rightarrow> ([], Raise e)
         | Inr ws \<Rightarrow>
             and_then (standalone_word_loop d ind isura iverse (range_len ws))
               (standalone_verse_loop d ind isura rest)))"

fun standalone_sura_loop :: "data \<Rightarrow> IndexRange \<Rightarrow> int list \<Rightarrow> Block list \<times> flow" where
  "standalone_sura_loop d ind [] = ([], Next)"
| "standalone_sura_loop d ind (isura # rest) =
     (case get_sura d isura of
        Inl e \<Rightarrow> ([], Raise e)
      | Inr vs \<Rightarrow>
          and_then (standalone_verse_loop d ind isura (range_len vs))
            (standalone_sura_loop d ind rest))"

definition standalone_extract_seq :: "data \<Rightarrow> IndexRange \<Rightarrow> Block list \<times> error option" where
  "standalone_extract_seq d ind =
     drained (standalone_sura_loop d ind [sura (ini ind)..sura (fin ind)])"

section \<open>Bounds correction and the resolution of \<open>-1\<close> (qrn/mushaf.py)\<close>

text \<open>\<open>ind.block > len(...)\<close>: TypeError when the block is \<open>None\<close>.\<close>

definition py_opt_greater :: "int option \<Rightarrow> int \<Rightarrow> error + bool" where
  "py_opt_greater a b = (case a of None \<Rightarrow> Inl TypeError | Some a' \<Rightarrow> Inr (a' > b))"

text \<open>
  \<open>_correct_out_of_bounds(ind, data)\<close>, lines 99 to 129. The function assigns to the
  fields of \<open>ind\<close> and returns nothing, so the model hands back the index as it stands
  when the function is left, with the exception that left it, if any. The warnings the
  function prints to stderr are not modelled.
\<close>

definition correct_out_of_bounds :: "Index \<Rightarrow> data \<Rightarrow> Index \<times> error option" where
  "correct_out_of_bounds ind d =
     (let ind1 = (if sura ind > int (length (indexes d))
                  then ind\<lparr>sura := int (length (indexes d))\<rparr> else ind)
      in case get_sura d (sura ind1 - 1) of
           Inl e \<Rightarrow> (ind1, Some e)
         | Inr vs \<Rightarrow>
             (let ind2 = (if verse ind1 > int (length vs)
                          then ind1\<lparr>verse := int (length vs)\<rparr> else ind1)
              in case get_verse d (sura ind2 - 1) (verse ind2 - 1) of
                   Inl e \<Rightarrow> (ind2, Some e)
                 | Inr ws \<Rightarrow>
                     (let ind3 = (if word ind2 > int (length ws)
                                  then ind2\<lparr>word := int (length ws)\<rparr> else ind2)
                      in case get_word d (sura ind3 - 1) (verse ind3 - 1) (word ind3 - 1) of
                           Inl e \<Rightarrow> (ind3, Some e)
                         | Inr bs \<Rightarrow>
                             (case py_opt_greater (block ind3) (int (length bs)) of
                                Inl e \<Rightarrow> (ind3, Some e)
                              | Inr over \<Rightarrow>
                                  (if over then ind3\<lparr>block := Some (int (length bs))\<rparr>
                                   else ind3, None)))))"

text \<open>
  Lines 185 to 195 of \<open>get_text\<close>, one definition for each \<open>if\<close>: a component of
  the end index that equals \<open>-1\<close> is replaced by a length read from the structure.
\<close>

definition last_sura :: "data \<Rightarrow> Index \<Rightarrow> error + Index" where
  "last_sura d e =
     (if sura e = - 1 then Inr (e\<lparr>sura := int (length (indexes d))\<rparr>) else Inr e)"

definition last_verse :: "data \<Rightarrow> Index \<Rightarrow> error + Index" where
  "last_verse d e =
     (if verse e = - 1
      then (case get_sura d (sura e - 1) of
              Inl x \<Rightarrow> Inl x
            | Inr vs \<Rightarrow> Inr (e\<lparr>verse := int (length vs)\<rparr>))
      else Inr e)"

definition last_word :: "data \<Rightarrow> Index \<Rightarrow> error + Index" where
  "last_word d e =
     (if word e = - 1
      then (case get_verse d (sura e - 1) (verse e - 1) of
              Inl x \<Rightarrow> Inl x
            | Inr ws \<Rightarrow> Inr (e\<lparr>word := int (length ws)\<rparr>))
      else Inr e)"

definition last_block :: "data \<Rightarrow> Index \<Rightarrow> error + Index" where
  "last_block d e =
     (if block e = Some (- 1)
      then (case get_word d (sura e - 1) (verse e - 1) (word e - 1) of
              Inl x \<Rightarrow> Inl x
            | Inr bs \<Rightarrow> Inr (e\<lparr>block := Some (int (length bs))\<rparr>))
      else Inr e)"

definition resolve_last :: "Index \<Rightarrow> data \<Rightarrow> Index \<times> error option" where
  "resolve_last e d =
     (case last_sura d e of
        Inl x \<Rightarrow> (e, Some x)
      | Inr e1 \<Rightarrow>
          (case last_verse d e1 of
             Inl x \<Rightarrow> (e1, Some x)
           | Inr e2 \<Rightarrow>
               (case last_word d e2 of
                  Inl x \<Rightarrow> (e2, Some x)
                | Inr e3 \<Rightarrow>
                    (case last_block d e3 of
                       Inl x \<Rightarrow> (e3, Some x)
                     | Inr e4 \<Rightarrow> (e4, None)))))"

text \<open>
  Modelled from the spec: \<open>Index.to_base_zero\<close>, a method of the class \<open>Index\<close> of
  qrn/models.py, which is not among the sources. The spec has the conversion from the
  1-based external coordinates to the 0-based traversal coordinates happen once, at the
  resolution boundary, and the traversal add one per level on the way out; so the
  method takes one from every component.
\<close>

definition to_base_zero :: "Index \<Rightarrow> Index" where
  "to_base_zero ind =
     ind\<lparr>sura := sura ind - 1, verse := verse ind - 1, word := word ind - 1,
          block := map_option (\<lambda>b. b - 1) (block ind)\<rparr>"

section \<open>Aggregation and presentation (qrn/mushaf.py)\<close>

text \<open>
  \<open>itertools.groupby(sequence, key)\<close>: a group is a maximal run of consecutive
  elements with equal keys.
\<close>

function groupby :: "('a \<Rightarrow> 'k) \<Rightarrow> 'a list \<Rightarrow> ('k \<times> 'a list) list" where
  "groupby key [] = []"
| "groupby key (x # xs) =
     (key x, x # takeWhile (\<lambda>y. key y = key x) xs) #
       groupby key (dropWhile (\<lambda>y. key y = key x) xs)"
  by pat_completeness auto
termination
  by (relation "measure (\<lambda>(key, xs). length xs)")
    (auto simp: less_Suc_eq_le length_dropWhile_le)

text \<open>The key of line 206 and the record built at lines 210 to 221.\<close>

definition word_key :: "Block \<Rightarrow> int \<times> int \<times> int" where
  "word_key b = (sura (index b), verse (index b), word (index b))"

definition join_group :: "(int \<times> int \<times> int) \<times> Block list \<Rightarrow> Block" where
  "join_group kg =
     (case kg of
        ((s, v, w), blocks_group) \<Rightarrow>
          \<lparr>grapheme_ar = concat (map grapheme_ar blocks_group),
           grapheme_lt = concat (map grapheme_lt blocks_group),
           archigrapheme_ar = concat (map archigrapheme_ar blocks_group),
           archigrapheme_lt = concat (map archigrapheme_lt blocks_group),
           index = \<lparr>sura = s, verse = v, word = w, block = None\<rparr>\<rparr>)"

text \<open>
  The two generator expressions of lines 204 to 221 over a drained upstream. A group
  is handed on once \<open>list(g)\<close> has seen the first record of the next group or the end
  of the upstream; an exception of the upstream comes out of \<open>list(g)\<close>, so the group
  that was open is lost.
\<close>

definition aggregate :: "Block list \<times> error option \<Rightarrow> Block list \<times> error option" where
  "aggregate seq =
     (case seq of
        (ys, None) \<Rightarrow> (map join_group (groupby word_key ys), None)
      | (ys, Some e) \<Rightarrow> (map join_group (butlast (groupby word_key ys)), Some e))"

text \<open>\<open>args[key]\<close> on the dictionary of flags.\<close>

definition flag :: "(string \<rightharpoonup> bool) \<Rightarrow> string \<Rightarrow> (bool \<Rightarrow> error + 'a) \<Rightarrow> error + 'a" where
  "flag args key k = (case args key of None \<Rightarrow> Inl KeyError | Some v \<Rightarrow> k v)"

text \<open>
  Lines 225 to 245. Line 228 reads \<open>elif no_arch:\<close>: \<open>no_arch\<close> is neither a local
  variable nor a name of the module, so evaluating it raises NameError.
\<close>

definition select_fields :: "(string \<rightharpoonup> bool) \<Rightarrow> Block \<Rightarrow> error + string list" where
  "select_fields args blk =
     flag args ''no_lat'' (\<lambda>no_lat.
       if no_lat then
         flag args ''no_graph'' (\<lambda>no_graph.
           if no_graph then Inr [archigrapheme_ar blk]
           else Inl NameError)
       else
         flag args ''no_ara'' (\<lambda>no_ara.
           if no_ara then
             flag args ''no_graph'' (\<lambda>no_graph.
               if no_graph then Inr [archigrapheme_lt blk]
               else
                 flag args ''no_arch'' (\<lambda>no_arch.
                   if no_arch then Inr [grapheme_lt blk]
                   else Inr [grapheme_lt blk, archigrapheme_lt blk]))
           else
             flag args ''no_graph'' (\<lambda>no_graph.
               if no_graph then Inr [archigrapheme_ar blk, archigrapheme_lt blk]
               else
                 flag args ''no_arch'' (\<lambda>no_arch.
                   if no_arch then Inr [grapheme_ar blk, grapheme_lt blk]
                   else Inr [grapheme_ar blk, grapheme_lt blk,
                             archigrapheme_ar blk, archigrapheme_lt blk]))))"

text \<open>\<open>str\<close> of an integer, as the f-strings of lines 247 and 249 format it.\<close>

fun py_str_nat :: "nat \<Rightarrow> string" where
  "py_str_nat n =
     (if n < 10 then [''0123456789'' ! n]
      else py_str_nat (n div 10) @ [''0123456789'' ! (n mod 10)])"

definition py_str :: "int \<Rightarrow> string" where
  "py_str i = (if i < 0 then CHR ''-'' # py_str_nat (nat (- i)) else py_str_nat (nat i))"

text \<open>
  Lines 247 to 249: the block is appended when it is truthy, that is neither \<open>None\<close>
  nor zero.
\<close>

definition index_string :: "Index \<Rightarrow> string" where
  "index_string i =
     (let ind = py_str (sura i) @ '':'' @ py_str (verse i) @ '':'' @ py_str (word i)
      in case block i of
           None \<Rightarrow> ind
         | Some b \<Rightarrow> if b \<noteq> 0 then ind @ '':'' @ py_str b else ind)"

definition present :: "(string \<rightharpoonup> bool) \<Rightarrow> Block \<Rightarrow> error + string list" where
  "present args blk =
     (case select_fields args blk of
        Inl e \<Rightarrow> Inl e
      | Inr res \<Rightarrow> Inr (res @ [index_string (index blk)]))"

text \<open>
  The loop of lines 223 to 253 over a drained upstream: the tuples it yields, and the
  exception that ends it, its own or the upstream's.
\<close>

fun present_all ::
  "(string \<rightharpoonup> bool) \<Rightarrow> Block list \<Rightarrow> error option \<Rightarrow> string list list \<times> error option" where
  "present_all args [] err = ([], err)"
| "present_all args (blk # rest) err =
     (case present args blk of
        Inl e \<Rightarrow> ([], Some e)
      | Inr res \<Rightarrow> (case present_all args rest err of (out, r) \<Rightarrow> (res # out, r)))"

section \<open>get_text and the objects it assigns to\<close>

text \<open>
  \<open>get_text\<close> assigns to the fields of the two \<open>Index\<close> objects it is given and to the
  keys of its \<open>args\<close> dictionary, so the model keeps the objects in a store, addressed
  by references. The dictionary \<open>{}\<close> of the parameter default is created once, when
  the function is defined: it lives at the fixed reference \<open>default_args\<close>.
\<close>

record heap =
  index_objs :: "nat \<Rightarrow> Index"
  dict_objs :: "nat \<Rightarrow> (string \<rightharpoonup> bool)"

definition default_args :: nat where
  "default_args = 0"

text \<open>Lines 164 to 166.\<close>

definition set_default :: "(string \<rightharpoonup> bool) \<Rightarrow> string \<Rightarrow> (string \<rightharpoonup> bool)" where
  "set_default args arg = (if args arg = None then args(arg \<mapsto> False) else args)"

definition fill_defaults :: "(string \<rightharpoonup> bool) \<Rightarrow> (string \<rightharpoonup> bool)" where
  "fill_defaults args =
     foldl set_default args [''blocks'', ''no_lat'', ''no_ara'', ''no_graph'', ''no_arch'']"

text \<open>A call that assigns to the fields of the object behind a reference.\<close>

definition mutate :: "heap \<Rightarrow> nat \<Rightarrow> (Index \<Rightarrow> Index \<times> error option) \<Rightarrow> heap \<times> error option" where
  "mutate h r f =
     (case f (index_objs h r) of
        (ind, err) \<Rightarrow> (h\<lparr>index_objs := (index_objs h)(r := ind)\<rparr>, err))"

text \<open>
  Lines 164 to 198, with the loaded document \<open>d\<close> in place of lines 168 to 176 (the
  choice of the file and its parsing are not modelled).
\<close>

definition prepare :: "heap \<Rightarrow> nat \<Rightarrow> nat \<Rightarrow> data \<Rightarrow> nat \<Rightarrow> heap \<times> error option" where
  "prepare h ini_index end_index d args =
     (let h0 = h\<lparr>dict_objs := (dict_objs h)(args := fill_defaults (dict_objs h args))\<rparr>
      in case mutate h0 ini_index (\<lambda>i. correct_out_of_bounds i d) of
           (h1, Some e) \<Rightarrow> (h1, Some e)
         | (h1, None) \<Rightarrow>
             (case mutate h1 end_index (\<lambda>i. correct_out_of_bounds i d) of
                (h2, Some e) \<Rightarrow> (h2, Some e)
              | (h2, None) \<Rightarrow>
                  (case mutate h2 end_index (\<lambda>i. resolve_last i d) of
                     (h3, Some e) \<Rightarrow> (h3, Some e)
                   | (h3, None) \<Rightarrow>
                       (let h4 = h3\<lparr>index_objs := (index_objs h3)
                                   (ini_index := to_base_zero (index_objs h3 ini_index))\<rparr>;
                            h5 = h4\<lparr>index_objs := (index_objs h4)
                                   (end_index := to_base_zero (index_objs h4 end_index))\<rparr>
                        in (h5, None)))))"

text \<open>Lines 200 to 253 over the flags and the drained extraction.\<close>

definition stages ::
  "(string \<rightharpoonup> bool) \<Rightarrow> Block list \<times> error option \<Rightarrow> string list list \<times> error option" where
  "stages args seq =
     (case args ''blocks'' of
        None \<Rightarrow> ([], Some KeyError)
      | Some blocks_flag \<Rightarrow>
          (case (if \<not> blocks_flag then aggregate seq else seq) of
             (ys, err) \<Rightarrow> present_all args ys err))"

text \<open>
  \<open>get_text(ini_index, end_index, source, args)\<close>, drained by its caller: the store it
  leaves, the tuples it yields and the exception that ends it, if any. \<open>args\<close> is
  \<open>None\<close> when the caller leaves the parameter out.
\<close>

definition get_text ::
  "heap \<Rightarrow> nat \<Rightarrow> nat \<Rightarrow> data \<Rightarrow> nat option \<Rightarrow> heap \<times> string list list \<times> error option" where
  "get_text h ini_index end_index d args =
     (let a = (case args of None \<Rightarrow> default_args | Some r \<Rightarrow> r)
      in case prepare h ini_index end_index d a of
           (h', Some e) \<Rightarrow> (h', [], Some e)
         | (h', None) \<Rightarrow>
             (h', stages (dict_objs h' a)
                    (extract_seq d (index_objs h' ini_index) (index_objs h' end_index))))"

type_synonym coord = "int \<times> int \<times> int \<times> int"

fun lex_le :: "coord \<Rightarrow> coord \<Rightarrow> bool" where
  "lex_le (s, v, w, b) (s', v', w', b') \<longleftrightarrow>
     s < s' \<or> (s = s' \<and> (v < v' \<or> (v = v' \<and> (w < w' \<or> (w = w' \<and> b \<le> b')))))"

fun lex_less :: "coord \<Rightarrow> coord \<Rightarrow> bool" where
  "lex_less (s, v, w, b) (s', v', w', b') \<longleftrightarrow>
     s < s' \<or> (s = s' \<and> (v < v' \<or> (v = v' \<and> (w < w' \<or> (w = w' \<and> b < b')))))"

definition in_range :: "coord \<Rightarrow> coord \<Rightarrow> coord \<Rightarrow> bool" where
  "in_range lo hi c \<longleftrightarrow> lex_le lo c \<and> lex_le c hi"

definition word_coords :: "data \<Rightarrow> int \<Rightarrow> int \<Rightarrow> int \<Rightarrow> coord list" where
  "word_coords d s v w =
     map (\<lambda>b. (s, v, w, b)) (range_len (indexes d ! nat s ! nat v ! nat w))"

definition verse_coords :: "data \<Rightarrow> int \<Rightarrow> int \<Rightarrow> coord list" where
  "verse_coords d s v =
     concat (map (word_coords d s v) (range_len (indexes d ! nat s ! nat v)))"

definition sura_coords :: "data \<Rightarrow> int \<Rightarrow> coord list" where
  "sura_coords d s = concat (map (verse_coords d s) (range_len (indexes d ! nat s)))"

definition coords :: "data \<Rightarrow> coord list" where
  "coords d = concat (map (sura_coords d) (range_len (indexes d)))"

fun emit :: "data \<Rightarrow> coord list \<Rightarrow> Block list \<times> error option" where
  "emit d [] = ([], None)"
| "emit d ((s, v, w, b) # cs) =
     (case make_block d s v w b of
        Inl e \<Rightarrow> ([], Some e)
      | Inr blk \<Rightarrow> (case emit d cs of (ys, r) \<Rightarrow> (blk # ys, r)))"

definition agrees :: "data \<Rightarrow> (coord \<Rightarrow> bool) \<Rightarrow> coord list \<Rightarrow> Block list \<times> flow \<Rightarrow> bool" where
  "agrees d R cs r \<longleftrightarrow> drained r = emit d (filter R cs)"

definition coord_of :: "Index \<Rightarrow> int \<Rightarrow> coord" where
  "coord_of ini_ind bi = (sura ini_ind, verse ini_ind, word ini_ind, bi)"

fun valid_coord :: "data \<Rightarrow> coord \<Rightarrow> bool" where
  "valid_coord d (s, v, w, b) \<longleftrightarrow>
     0 \<le> s \<and> s < int (length (indexes d)) \<and>
     0 \<le> v \<and> v < int (length (indexes d ! nat s)) \<and>
     0 \<le> w \<and> w < int (length (indexes d ! nat s ! nat v)) \<and>
     0 \<le> b \<and> b < int (length (indexes d ! nat s ! nat v ! nat w))"

fun block_id_at :: "data \<Rightarrow> coord \<Rightarrow> int" where
  "block_id_at d (s, v, w, b) = indexes d ! nat s ! nat v ! nat w ! nat b"

fun leaf_at :: "data \<Rightarrow> coord \<Rightarrow> Block" where
  "leaf_at d (s, v, w, b) =
     (case blocks d ! nat (block_id_at d (s, v, w, b)) of
        (graph_ar, graph_lt, arch_ar, arch_lt) \<Rightarrow>
          \<lparr>grapheme_ar = graph_ar, grapheme_lt = graph_lt,
           archigrapheme_ar = arch_ar, archigrapheme_lt = arch_lt,
           index = \<lparr>sura = s + 1, verse = v + 1, word = w + 1, block = Some (b + 1)\<rparr>\<rparr>)"

definition wf_data :: "data \<Rightarrow> bool" where
  "wf_data d \<longleftrightarrow>
     (\<forall>vs\<in>set (indexes d). \<forall>ws\<in>set vs. \<forall>bs\<in>set ws. \<forall>i\<in>set bs.
        0 \<le> i \<and> i < int (length (blocks d)))"

definition one_based :: "coord \<Rightarrow> Index" where
  "one_based c = (case c of (s, v, w, b) \<Rightarrow>
     \<lparr>sura = s + 1, verse = v + 1, word = w + 1, block = Some (b + 1)\<rparr>)"

definition sample :: data where
  "sample =
     \<lparr>indexes = [[[[0], [1, 2]], [[3], [0, 1]]], [[[2]]]],
      blocks = [(''a'', ''A'', ''x'', ''X''), (''b'', ''B'', ''y'', ''Y''),
                (''c'', ''C'', ''z'', ''Z''), (''d'', ''D'', ''w'', ''W'')]\<rparr>"

lemma emit_append:
  "emit d (xs @ ys) =
     (case emit d xs of
        (as, None) \<Rightarrow> (case emit d ys of (bs, r) \<Rightarrow> (as @ bs, r))
      | (as, Some e) \<Rightarrow> (as, Some e))"
  by (induction xs) (auto split: sum.splits prod.splits option.splits)

lemma agrees_Nil: "agrees d R [] ([], Next)"
  by (simp add: agrees_def drained_def)

lemma agrees_and_then:
  assumes "agrees d R A r" and "agrees d R B k"
    and "snd r = Return \<Longrightarrow> filter R B = []"
  shows "agrees d R (A @ B) (and_then r k)"
proof (cases r)
  case (Pair ys fl)
  show ?thesis
  proof (cases fl)
    case Next
    with Pair assms(1,2) show ?thesis
      by (auto simp: agrees_def drained_def and_then_def emit_append
          split: prod.splits flow.splits option.splits)
  next
    case Return
    with Pair assms(1,3) show ?thesis
      by (auto simp: agrees_def drained_def and_then_def emit_append
          split: prod.splits flow.splits option.splits)
  next
    case (Raise e)
    with Pair assms(1) show ?thesis
      by (auto simp: agrees_def drained_def and_then_def emit_append
          split: prod.splits flow.splits option.splits)
  qed
qed

lemma and_then_Return:
  "snd (and_then r k) = Return \<Longrightarrow> snd r = Return \<or> (snd r = Next \<and> snd k = Return)"
  by (auto simp: and_then_def split: prod.splits flow.splits)

lemma lex_le_lower_iff:
  assumes "sura ini_ind \<le> s" "\<not> skip_verse ini_ind s v" "\<not> skip_word ini_ind s v w"
  shows "lex_le (coord_of ini_ind bi) (s, v, w, b) \<longleftrightarrow>
    \<not> (s = sura ini_ind \<and> v = verse ini_ind \<and> w = word ini_ind \<and> b < bi)"
  using assms by (auto simp: coord_of_def skip_verse_def skip_word_def)

lemma lex_le_upper_iff:
  assumes "s \<le> sura end_ind" "\<not> stop_verse end_ind s v" "\<not> stop_word end_ind s v w"
  shows "lex_le (s, v, w, b) (coord_of end_ind be) \<longleftrightarrow>
    \<not> (s = sura end_ind \<and> v = verse end_ind \<and> w = word end_ind \<and> b > be)"
  using assms by (auto simp: coord_of_def stop_verse_def stop_word_def)

lemma block_loop_agrees:
  assumes bi: "block ini_ind = Some bi" and be: "block end_ind = Some be"
    and s: "sura ini_ind \<le> s" "s \<le> sura end_ind"
    and v: "\<not> skip_verse ini_ind s v" "\<not> stop_verse end_ind s v"
    and w: "\<not> skip_word ini_ind s v w" "\<not> stop_word end_ind s v w"
    and sorted: "sorted_wrt (<) bs"
  shows "agrees d (in_range (coord_of ini_ind bi) (coord_of end_ind be))
           (map (\<lambda>b. (s, v, w, b)) bs) (block_loop d ini_ind end_ind s v w bs)
       \<and> (snd (block_loop d ini_ind end_ind s v w bs) = Return \<longrightarrow>
            s = sura end_ind \<and> v = verse end_ind \<and> w = word end_ind)"
  using sorted
proof (induction bs)
  case Nil
  show ?case by (simp add: agrees_Nil)
next
  case (Cons b rest)
  let ?R = "in_range (coord_of ini_ind bi) (coord_of end_ind be)"
  define at_ini where "at_ini \<longleftrightarrow> s = sura ini_ind \<and> v = verse ini_ind \<and> w = word ini_ind"
  define at_end where "at_end \<longleftrightarrow> s = sura end_ind \<and> v = verse end_ind \<and> w = word end_ind"
  have lo: "lex_le (coord_of ini_ind bi) (s, v, w, x) \<longleftrightarrow> \<not> (at_ini \<and> x < bi)" for x
    unfolding at_ini_def using lex_le_lower_iff [OF s(1) v(1) w(1)] by blast
  have hi: "lex_le (s, v, w, x) (coord_of end_ind be) \<longleftrightarrow> \<not> (at_end \<and> x > be)" for x
    unfolding at_end_def using lex_le_upper_iff [OF s(2) v(2) w(2)] by blast
  have skip: "skip_block ini_ind s v w b = Inr (at_ini \<and> b < bi)"
    by (auto simp: skip_block_def py_less_def bi at_ini_def)
  have stop: "stop_block end_ind s v w b = Inr (at_end \<and> b > be)"
    by (auto simp: stop_block_def py_greater_def be at_end_def)
  from Cons.prems have later: "\<forall>x\<in>set rest. b < x" and srt: "sorted_wrt (<) rest"
    by simp_all
  note IH = Cons.IH [OF srt]
  let ?f = "\<lambda>b. (s, v, w, b)"
  let ?loop = "block_loop d ini_ind end_ind s v w"
  show ?case
  proof (cases "at_ini \<and> b < bi")
    case True
    then have "\<not> ?R (s, v, w, b)" by (simp add: in_range_def lo)
    then have filt: "filter ?R (map ?f (b # rest)) = filter ?R (map ?f rest)" by simp
    have step: "?loop (b # rest) = ?loop rest"
      using True by (auto simp: skip)
    show ?thesis unfolding agrees_def step filt using IH [unfolded agrees_def] .
  next
    case notskip: False
    show ?thesis
    proof (cases "at_end \<and> b > be")
      case True
      have "\<not> ?R (s, v, w, x)" if "x = b \<or> x \<in> set rest" for x
        using that True later by (auto simp: in_range_def hi)
      then have filt: "filter ?R (map ?f (b # rest)) = []"
        by (auto simp: filter_empty_conv)
      have step: "?loop (b # rest) = ([], Return)"
        using notskip True by (auto simp: skip stop)
      have "agrees d ?R (map ?f (b # rest)) (?loop (b # rest))"
        unfolding agrees_def step filt by (simp add: drained_def)
      moreover have "s = sura end_ind \<and> v = verse end_ind \<and> w = word end_ind"
        using True unfolding at_end_def by blast
      ultimately show ?thesis by blast
    next
      case False
      with notskip have "?R (s, v, w, b)" by (simp add: in_range_def lo hi)
      then have filt: "filter ?R (map ?f (b # rest)) = (s, v, w, b) # filter ?R (map ?f rest)"
        by simp
      have step: "?loop (b # rest) =
          (case make_block d s v w b of
             Inl e \<Rightarrow> ([], Raise e)
           | Inr blk \<Rightarrow> (case ?loop rest of (ys, fl) \<Rightarrow> (blk # ys, fl)))"
        using notskip False by (auto simp: skip stop)
      show ?thesis unfolding agrees_def step filt using IH [unfolded agrees_def]
        by (auto simp: drained_def split: sum.splits prod.splits flow.splits)
    qed
  qed
qed

lemma py_index_nonneg: "0 \<le> i \<Longrightarrow> i < int (length xs) \<Longrightarrow> py_index xs i = Inr (xs ! nat i)"
  by (simp add: py_index_def)

lemma get_sura_valid:
  "0 \<le> s \<Longrightarrow> s < int (length (indexes d)) \<Longrightarrow> get_sura d s = Inr (indexes d ! nat s)"
  by (simp add: get_sura_def py_index_nonneg)

lemma get_verse_valid:
  "0 \<le> s \<Longrightarrow> s < int (length (indexes d)) \<Longrightarrow>
   0 \<le> v \<Longrightarrow> v < int (length (indexes d ! nat s)) \<Longrightarrow>
   get_verse d s v = Inr (indexes d ! nat s ! nat v)"
  by (simp add: get_verse_def get_sura_valid py_index_nonneg)

lemma get_word_valid:
  "0 \<le> s \<Longrightarrow> s < int (length (indexes d)) \<Longrightarrow>
   0 \<le> v \<Longrightarrow> v < int (length (indexes d ! nat s)) \<Longrightarrow>
   0 \<le> w \<Longrightarrow> w < int (length (indexes d ! nat s ! nat v)) \<Longrightarrow>
   get_word d s v w = Inr (indexes d ! nat s ! nat v ! nat w)"
  by (simp add: get_word_def get_verse_valid py_index_nonneg)

lemma in_word_coords: "c \<in> set (word_coords d s v w) \<Longrightarrow> \<exists>b. c = (s, v, w, b)"
  by (auto simp: word_coords_def)

lemma in_verse_coords: "c \<in> set (verse_coords d s v) \<Longrightarrow> \<exists>w b. c = (s, v, w, b)"
  by (auto simp: verse_coords_def dest: in_word_coords)

lemma in_sura_coords: "c \<in> set (sura_coords d s) \<Longrightarrow> \<exists>v w b. c = (s, v, w, b)"
  by (auto simp: sura_coords_def dest: in_verse_coords)

lemma below_word: "s = sura ini_ind \<Longrightarrow> v = verse ini_ind \<Longrightarrow> w < word ini_ind \<Longrightarrow>
    \<not> in_range (coord_of ini_ind bi) hi (s, v, w, b)"
  by (simp add: in_range_def coord_of_def)

lemma above_word: "s = sura end_ind \<Longrightarrow> v = verse end_ind \<Longrightarrow> w > word end_ind \<Longrightarrow>
    \<not> in_range lo (coord_of end_ind be) (s, v, w, b)"
  by (simp add: in_range_def coord_of_def)

lemma below_verse: "s = sura ini_ind \<Longrightarrow> v < verse ini_ind \<Longrightarrow>
    \<not> in_range (coord_of ini_ind bi) hi (s, v, w, b)"
  by (simp add: in_range_def coord_of_def)

lemma above_verse: "s = sura end_ind \<Longrightarrow> v > verse end_ind \<Longrightarrow>
    \<not> in_range lo (coord_of end_ind be) (s, v, w, b)"
  by (simp add: in_range_def coord_of_def)

lemma below_sura: "s < sura ini_ind \<Longrightarrow> \<not> in_range (coord_of ini_ind bi) hi (s, v, w, b)"
  by (simp add: in_range_def coord_of_def)

lemma above_sura: "s > sura end_ind \<Longrightarrow> \<not> in_range lo (coord_of end_ind be) (s, v, w, b)"
  by (simp add: in_range_def coord_of_def)

lemma filter_concat_map_Nil:
  "(\<And>x c. x \<in> set xs \<Longrightarrow> c \<in> set (f x) \<Longrightarrow> \<not> P c) \<Longrightarrow> filter P (concat (map f xs)) = []"
  by (induction xs) (auto simp: filter_empty_conv)

lemma word_loop_agrees:
  assumes bi: "block ini_ind = Some bi" and be: "block end_ind = Some be"
    and s: "sura ini_ind \<le> s" "s \<le> sura end_ind"
    and v: "\<not> skip_verse ini_ind s v" "\<not> stop_verse end_ind s v"
    and valid: "0 \<le> s" "s < int (length (indexes d))"
      "0 \<le> v" "v < int (length (indexes d ! nat s))"
    and sorted: "sorted_wrt (<) ws"
    and bounds: "\<forall>w\<in>set ws. 0 \<le> w \<and> w < int (length (indexes d ! nat s ! nat v))"
  shows "agrees d (in_range (coord_of ini_ind bi) (coord_of end_ind be))
           (concat (map (word_coords d s v) ws)) (word_loop d ini_ind end_ind s v ws)
       \<and> (snd (word_loop d ini_ind end_ind s v ws) = Return \<longrightarrow>
            s = sura end_ind \<and> v = verse end_ind)"
  using sorted bounds
proof (induction ws)
  case Nil
  show ?case by (simp add: agrees_Nil)
next
  case (Cons w rest)
  let ?R = "in_range (coord_of ini_ind bi) (coord_of end_ind be)"
  let ?loop = "word_loop d ini_ind end_ind s v"
  let ?cs = "\<lambda>ws. concat (map (word_coords d s v) ws)"
  from Cons.prems have later: "\<forall>x\<in>set rest. w < x" and srt: "sorted_wrt (<) rest"
    and bnd: "\<forall>w\<in>set rest. 0 \<le> w \<and> w < int (length (indexes d ! nat s ! nat v))"
    and w: "0 \<le> w" "w < int (length (indexes d ! nat s ! nat v))"
    by simp_all
  note IH = Cons.IH [OF srt bnd]
  show ?case
  proof (cases "skip_word ini_ind s v w")
    case True
    have "\<not> ?R c" if "c \<in> set (word_coords d s v w)" for c
      using that True below_word [of s ini_ind v w bi "coord_of end_ind be"]
      by (auto simp: skip_word_def dest!: in_word_coords)
    then have "filter ?R (word_coords d s v w) = []"
      by (auto simp: filter_empty_conv)
    then have filt: "filter ?R (?cs (w # rest)) = filter ?R (?cs rest)" by simp
    have step: "?loop (w # rest) = ?loop rest" using True by simp
    show ?thesis unfolding agrees_def step filt using IH [unfolded agrees_def] .
  next
    case notskip: False
    show ?thesis
    proof (cases "stop_word end_ind s v w")
      case True
      have "\<not> ?R c" if "x \<in> set (w # rest)" "c \<in> set (word_coords d s v x)" for x c
        using that True later above_word [of s end_ind v x "coord_of ini_ind bi" be]
        by (auto simp: stop_word_def dest!: in_word_coords)
      then have filt: "filter ?R (?cs (w # rest)) = []"
        by (rule filter_concat_map_Nil)
      have step: "?loop (w # rest) = ([], Return)"
        using notskip True by simp
      have "agrees d ?R (?cs (w # rest)) (?loop (w # rest))"
        unfolding agrees_def step filt by (simp add: drained_def)
      moreover have "s = sura end_ind \<and> v = verse end_ind"
        using True by (simp add: stop_word_def)
      ultimately show ?thesis by (simp add: step)
    next
      case False
      let ?inner = "block_loop d ini_ind end_ind s v w (range_len (indexes d ! nat s ! nat v ! nat w))"
      have step: "?loop (w # rest) = and_then ?inner (?loop rest)"
        using notskip False by (simp add: get_word_valid valid w)
      have inner: "agrees d ?R (word_coords d s v w) ?inner
          \<and> (snd ?inner = Return \<longrightarrow> s = sura end_ind \<and> v = verse end_ind \<and> w = word end_ind)"
        unfolding word_coords_def range_len_def
        by (rule block_loop_agrees [OF bi be s v notskip False sorted_wrt_upto])
      have cut: "filter ?R (?cs rest) = []" if "snd ?inner = Return"
      proof (rule filter_concat_map_Nil)
        fix x c assume "x \<in> set rest" "c \<in> set (word_coords d s v x)"
        with that inner later show "\<not> ?R c"
          using above_word [of s end_ind v x "coord_of ini_ind bi" be]
          by (auto dest!: in_word_coords)
      qed
      have "agrees d ?R (word_coords d s v w @ ?cs rest) (and_then ?inner (?loop rest))"
        using inner IH cut by (intro agrees_and_then) simp_all
      moreover have "s = sura end_ind \<and> v = verse end_ind"
        if "snd (and_then ?inner (?loop rest)) = Return"
        using and_then_Return [OF that] inner IH by blast
      ultimately show ?thesis unfolding step by simp
    qed
  qed
qed

lemma verse_loop_agrees:
  assumes bi: "block ini_ind = Some bi" and be: "block end_ind = Some be"
    and s: "sura ini_ind \<le> s" "s \<le> sura end_ind"
    and valid: "0 \<le> s" "s < int (length (indexes d))"
    and sorted: "sorted_wrt (<) vs"
    and bounds: "\<forall>v\<in>set vs. 0 \<le> v \<and> v < int (length (indexes d ! nat s))"
  shows "agrees d (in_range (coord_of ini_ind bi) (coord_of end_ind be))
           (concat (map (verse_coords d s) vs)) (verse_loop d ini_ind end_ind s vs)
       \<and> (snd (verse_loop d ini_ind end_ind s vs) = Return \<longrightarrow> s = sura end_ind)"
  using sorted bounds
proof (induction vs)
  case Nil
  show ?case by (simp add: agrees_Nil)
next
  case (Cons v rest)
  let ?R = "in_range (coord_of ini_ind bi) (coord_of end_ind be)"
  let ?loop = "verse_loop d ini_ind end_ind s"
  let ?cs = "\<lambda>vs. concat (map (verse_coords d s) vs)"
  from Cons.prems have later: "\<forall>x\<in>set rest. v < x" and srt: "sorted_wrt (<) rest"
    and bnd: "\<forall>v\<in>set rest. 0 \<le> v \<and> v < int (length (indexes d ! nat s))"
    and v: "0 \<le> v" "v < int (length (indexes d ! nat s))"
    by simp_all
  note IH = Cons.IH [OF srt bnd]
  show ?case
  proof (cases "skip_verse ini_ind s v")
    case True
    have "\<not> ?R c" if "c \<in> set (verse_coords d s v)" for c
      using that True below_verse [of s ini_ind v bi "coord_of end_ind be"]
      by (auto simp: skip_verse_def dest!: in_verse_coords)
    then have "filter ?R (verse_coords d s v) = []"
      by (auto simp: filter_empty_conv)
    then have filt: "filter ?R (?cs (v # rest)) = filter ?R (?cs rest)" by simp
    have step: "?loop (v # rest) = ?loop rest" using True by simp
    show ?thesis unfolding agrees_def step filt using IH [unfolded agrees_def] .
  next
    case notskip: False
    show ?thesis
    proof (cases "stop_verse end_ind s v")
      case True
      have "\<not> ?R c" if "x \<in> set (v # rest)" "c \<in> set (verse_coords d s x)" for x c
        using that True later above_verse [of s end_ind x "coord_of ini_ind bi" be]
        by (auto simp: stop_verse_def dest!: in_verse_coords)
      then have filt: "filter ?R (?cs (v # rest)) = []"
        by (rule filter_concat_map_Nil)
      have step: "?loop (v # rest) = ([], Return)"
        using notskip True by simp
      have "agrees d ?R (?cs (v # rest)) (?loop (v # rest))"
        unfolding agrees_def step filt by (simp add: drained_def)
      moreover have "s = sura end_ind"
        using True by (simp add: stop_verse_def)
      ultimately show ?thesis by (simp add: step)
    next
      case False
      let ?inner = "word_loop d ini_ind end_ind s v (range_len (indexes d ! nat s ! nat v))"
      have step: "?loop (v # rest) = and_then ?inner (?loop rest)"
        using notskip False by (simp add: get_verse_valid valid v)
      have "\<forall>w\<in>set (range_len (indexes d ! nat s ! nat v)).
          0 \<le> w \<and> w < int (length (indexes d ! nat s ! nat v))"
        by (simp add: range_len_def)
      then have inner: "agrees d ?R (verse_coords d s v) ?inner
          \<and> (snd ?inner = Return \<longrightarrow> s = sura end_ind \<and> v = verse end_ind)"
        unfolding verse_coords_def
        by (intro word_loop_agrees [OF bi be s notskip False valid v])
          (simp_all add: range_len_def)
      have cut: "filter ?R (?cs rest) = []" if "snd ?inner = Return"
      proof (rule filter_concat_map_Nil)
        fix x c assume "x \<in> set rest" "c \<in> set (verse_coords d s x)"
        with that inner later show "\<not> ?R c"
          using above_verse [of s end_ind x "coord_of ini_ind bi" be]
          by (auto dest!: in_verse_coords)
      qed
      have "agrees d ?R (verse_coords d s v @ ?cs rest) (and_then ?inner (?loop rest))"
        using inner IH cut by (intro agrees_and_then) simp_all
      moreover have "s = sura end_ind"
        if "snd (and_then ?inner (?loop rest)) = Return"
        using and_then_Return [OF that] inner IH by blast
      ultimately show ?thesis unfolding step by simp
    qed
  qed
qed

lemma sura_loop_agrees:
  assumes bi: "block ini_ind = Some bi" and be: "block end_ind = Some be"
    and sorted: "sorted_wrt (<) ss"
    and bounds: "\<forall>s\<in>set ss. 0 \<le> s \<and> s < int (length (indexes d))
        \<and> sura ini_ind \<le> s \<and> s \<le> sura end_ind"
  shows "agrees d (in_range (coord_of ini_ind bi) (coord_of end_ind be))
           (concat (map (sura_coords d) ss)) (sura_loop d ini_ind end_ind ss)"
  using sorted bounds
proof (induction ss)
  case Nil
  show ?case by (simp add: agrees_Nil)
next
  case (Cons s rest)
  let ?R = "in_range (coord_of ini_ind bi) (coord_of end_ind be)"
  let ?loop = "sura_loop d ini_ind end_ind"
  let ?cs = "\<lambda>ss. concat (map (sura_coords d) ss)"
  from Cons.prems have later: "\<forall>x\<in>set rest. s < x" and srt: "sorted_wrt (<) rest"
    and bnd: "\<forall>s\<in>set rest. 0 \<le> s \<and> s < int (length (indexes d))
        \<and> sura ini_ind \<le> s \<and> s \<le> sura end_ind"
    and s: "sura ini_ind \<le> s" "s \<le> sura end_ind"
    and valid: "0 \<le> s" "s < int (length (indexes d))"
    by simp_all
  note IH = Cons.IH [OF srt bnd]
  let ?inner = "verse_loop d ini_ind end_ind s (range_len (indexes d ! nat s))"
  have step: "?loop (s # rest) = and_then ?inner (?loop rest)"
    by (simp add: get_sura_valid valid)
  have inner: "agrees d ?R (sura_coords d s) ?inner
      \<and> (snd ?inner = Return \<longrightarrow> s = sura end_ind)"
    unfolding sura_coords_def
    by (intro verse_loop_agrees [OF bi be s valid]) (simp_all add: range_len_def)
  have cut: "filter ?R (?cs rest) = []" if "snd ?inner = Return"
  proof (rule filter_concat_map_Nil)
    fix x c assume "x \<in> set rest" "c \<in> set (sura_coords d x)"
    with that inner later show "\<not> ?R c"
      using above_sura [of end_ind x "coord_of ini_ind bi" be]
      by (auto dest!: in_sura_coords)
  qed
  have "agrees d ?R (sura_coords d s @ ?cs rest) (and_then ?inner (?loop rest))"
    using inner IH cut by (intro agrees_and_then) simp_all
  then show ?case unfolding step by simp
qed

lemma filter_coords_window:
  assumes "0 \<le> sura ini_ind" "sura end_ind < int (length (indexes d))"
  shows "filter (in_range (coord_of ini_ind bi) (coord_of end_ind be)) (coords d) =
    filter (in_range (coord_of ini_ind bi) (coord_of end_ind be))
      (concat (map (sura_coords d) [sura ini_ind..sura end_ind]))"
proof -
  let ?R = "in_range (coord_of ini_ind bi) (coord_of end_ind be)"
  let ?n = "int (length (indexes d))"
  have low: "filter ?R (concat (map (sura_coords d) [i..j])) = []" if "j < sura ini_ind" for i j
    by (rule filter_concat_map_Nil)
      (use that below_sura [of _ ini_ind bi "coord_of end_ind be"] in \<open>auto dest!: in_sura_coords\<close>)
  have high: "filter ?R (concat (map (sura_coords d) [i..j])) = []" if "sura end_ind < i" for i j
    by (rule filter_concat_map_Nil)
      (use that above_sura [of end_ind _ "coord_of ini_ind bi" be] in \<open>auto dest!: in_sura_coords\<close>)
  show ?thesis
  proof (cases "sura ini_ind \<le> sura end_ind")
    case True
    have "[0..?n - 1] = [0..sura ini_ind - 1] @ [sura ini_ind..?n - 1]"
      using assms True by (intro upto_split1) simp_all
    also have "[sura ini_ind..?n - 1] = [sura ini_ind..sura end_ind] @ [sura end_ind + 1..?n - 1]"
      using assms True by (intro upto_split2) simp_all
    finally show ?thesis
      by (simp add: coords_def range_len_def low high)
  next
    case False
    have "filter ?R (coords d) = []"
      unfolding coords_def
    proof (rule filter_concat_map_Nil)
      fix x c assume "x \<in> set (range_len (indexes d))" "c \<in> set (sura_coords d x)"
      then obtain v w b where c: "c = (x, v, w, b)" by (auto dest!: in_sura_coords)
      show "\<not> ?R c"
      proof (cases "x < sura ini_ind")
        case True then show ?thesis unfolding c by (rule below_sura)
      next
        case False
        with \<open>\<not> sura ini_ind \<le> sura end_ind\<close> have "x > sura end_ind" by simp
        then show ?thesis unfolding c by (rule above_sura)
      qed
    qed
    with False show ?thesis by simp
  qed
qed

lemma extract_seq_emit:
  assumes bi: "block ini_ind = Some bi" and be: "block end_ind = Some be"
    and "0 \<le> sura ini_ind" "sura end_ind < int (length (indexes d))"
  shows "extract_seq d ini_ind end_ind =
    emit d (filter (in_range (coord_of ini_ind bi) (coord_of end_ind be)) (coords d))"
proof -
  have "agrees d (in_range (coord_of ini_ind bi) (coord_of end_ind be))
      (concat (map (sura_coords d) [sura ini_ind..sura end_ind]))
      (sura_loop d ini_ind end_ind [sura ini_ind..sura end_ind])"
    using assms(3,4) by (intro sura_loop_agrees [OF bi be sorted_wrt_upto]) auto
  then show ?thesis
    by (simp add: extract_seq_def agrees_def filter_coords_window [OF assms(3,4)])
qed

lemma set_range_len: "set (range_len xs) = {i. 0 \<le> i \<and> i < int (length xs)}"
  by (auto simp: range_len_def)

lemma mem_word_coords:
  "(s', v', w', b) \<in> set (word_coords d s v w) \<longleftrightarrow>
     s' = s \<and> v' = v \<and> w' = w \<and>
     0 \<le> b \<and> b < int (length (indexes d ! nat s ! nat v ! nat w))"
  by (auto simp: word_coords_def set_range_len)

lemma mem_verse_coords:
  "(s', v', w, b) \<in> set (verse_coords d s v) \<longleftrightarrow>
     s' = s \<and> v' = v \<and>
     0 \<le> w \<and> w < int (length (indexes d ! nat s ! nat v)) \<and>
     0 \<le> b \<and> b < int (length (indexes d ! nat s ! nat v ! nat w))"
  by (auto simp: verse_coords_def set_range_len mem_word_coords)

lemma mem_sura_coords:
  "(s', v, w, b) \<in> set (sura_coords d s) \<longleftrightarrow>
     s' = s \<and>
     0 \<le> v \<and> v < int (length (indexes d ! nat s)) \<and>
     0 \<le> w \<and> w < int (length (indexes d ! nat s ! nat v)) \<and>
     0 \<le> b \<and> b < int (length (indexes d ! nat s ! nat v ! nat w))"
  by (auto simp: sura_coords_def set_range_len mem_verse_coords)

lemma mem_coords: "c \<in> set (coords d) \<longleftrightarrow> valid_coord d c"
  by (cases c) (auto simp: coords_def set_range_len mem_sura_coords)

lemma sorted_wrt_concat_map:
  assumes "sorted_wrt (<) (xs :: int list)"
    and "\<And>x. x \<in> set xs \<Longrightarrow> sorted_wrt L (f x)"
    and "\<And>x y a b. x \<in> set xs \<Longrightarrow> y \<in> set xs \<Longrightarrow> x < y \<Longrightarrow> a \<in> set (f x) \<Longrightarrow> b \<in> set (f y) \<Longrightarrow> L a b"
  shows "sorted_wrt L (concat (map f xs))"
  using assms
proof (induction xs)
  case Nil
  show ?case by simp
next
  case (Cons x xs)
  from Cons.prems(1) have "sorted_wrt (<) xs" by simp
  moreover have "sorted_wrt L (f y)" if "y \<in> set xs" for y
    using that Cons.prems(2) by simp
  moreover have "L a b" if "y \<in> set xs" "z \<in> set xs" "y < z" "a \<in> set (f y)" "b \<in> set (f z)"
    for y z a b
    using that Cons.prems(3) [of y z a b] by simp
  ultimately have "sorted_wrt L (concat (map f xs))"
    by (rule Cons.IH)
  moreover have "sorted_wrt L (f x)" using Cons.prems(2) by simp
  moreover have "L a b" if "a \<in> set (f x)" "b \<in> set (concat (map f xs))" for a b
  proof -
    from that(2) obtain y where y: "y \<in> set xs" "b \<in> set (f y)" by auto
    with Cons.prems(1) have "x < y" by simp
    with y that(1) show ?thesis using Cons.prems(3) [of x y a b] by simp
  qed
  ultimately show ?case by (simp add: sorted_wrt_append)
qed

lemma sorted_word_coords: "sorted_wrt lex_less (word_coords d s v w)"
  by (simp add: word_coords_def range_len_def sorted_wrt_map sorted_wrt_upto)

lemma sorted_verse_coords: "sorted_wrt lex_less (verse_coords d s v)"
  unfolding verse_coords_def range_len_def
  by (rule sorted_wrt_concat_map [OF sorted_wrt_upto sorted_word_coords])
    (auto dest!: in_word_coords)

lemma sorted_sura_coords: "sorted_wrt lex_less (sura_coords d s)"
  unfolding sura_coords_def range_len_def
  by (rule sorted_wrt_concat_map [OF sorted_wrt_upto sorted_verse_coords])
    (auto dest!: in_verse_coords)

lemma sorted_coords: "sorted_wrt lex_less (coords d)"
  unfolding coords_def range_len_def
  by (rule sorted_wrt_concat_map [OF sorted_wrt_upto sorted_sura_coords])
    (auto dest!: in_sura_coords)

lemma lex_less_irrefl: "\<not> lex_less c c"
  by (cases c) auto

lemma sorted_wrt_irrefl_distinct:
  "sorted_wrt L xs \<Longrightarrow> (\<And>x. \<not> L x x) \<Longrightarrow> distinct xs"
  by (induction xs) auto

lemma distinct_coords: "distinct (coords d)"
  by (rule sorted_wrt_irrefl_distinct [OF sorted_coords lex_less_irrefl])

lemma block_id_valid:
  assumes "wf_data d" "valid_coord d (s, v, w, b)"
  shows "0 \<le> block_id_at d (s, v, w, b) \<and> block_id_at d (s, v, w, b) < int (length (blocks d))"
proof -
  from assms(2) have "indexes d ! nat s \<in> set (indexes d)"
    "indexes d ! nat s ! nat v \<in> set (indexes d ! nat s)"
    "indexes d ! nat s ! nat v ! nat w \<in> set (indexes d ! nat s ! nat v)"
    "indexes d ! nat s ! nat v ! nat w ! nat b \<in> set (indexes d ! nat s ! nat v ! nat w)"
    by (simp_all add: nat_less_iff)
  with assms(1) show ?thesis unfolding wf_data_def block_id_at.simps by blast
qed

lemma make_block_valid:
  assumes "valid_coord d (s, v, w, b)"
    and "0 \<le> block_id_at d (s, v, w, b)" "block_id_at d (s, v, w, b) < int (length (blocks d))"
  shows "make_block d s v w b = Inr (leaf_at d (s, v, w, b))"
  using assms
  by (simp add: make_block_def get_word_valid py_index_nonneg split: prod.splits)

lemma emit_valid:
  assumes "wf_data d" "\<forall>c\<in>set cs. valid_coord d c"
  shows "emit d cs = (map (leaf_at d) cs, None)"
  using assms(2)
proof (induction cs)
  case Nil
  show ?case by simp
next
  case (Cons c cs)
  obtain s v w b where c: "c = (s, v, w, b)" by (cases c)
  from Cons.prems have "valid_coord d (s, v, w, b)" by (simp add: c)
  then have "make_block d s v w b = Inr (leaf_at d (s, v, w, b))"
    using block_id_valid [OF assms(1)] by (intro make_block_valid) auto
  with Cons show ?case by (simp add: c)
qed

lemma lex_le_antisym: "lex_le a b \<Longrightarrow> lex_le b a \<Longrightarrow> a = b"
  by (cases a; cases b) auto

lemma lex_le_refl: "lex_le a a"
  by (cases a) auto

lemma lex_le_trans: "lex_le a b \<Longrightarrow> lex_le b c \<Longrightarrow> lex_le a c"
  by (cases a; cases b; cases c) auto

lemma lex_less_not_le: "lex_less a b \<longleftrightarrow> \<not> lex_le b a"
  by (cases a; cases b) auto

lemma filter_single:
  "distinct xs \<Longrightarrow> t \<in> set xs \<Longrightarrow> (\<And>c. P c \<longleftrightarrow> c = t) \<Longrightarrow> filter P xs = [t]"
  by (induction xs) (auto simp: filter_empty_conv)

lemma index_leaf_at: "index (leaf_at d c) = one_based c"
  by (cases c) (simp add: one_based_def split: prod.splits)

text \<open>
  Claim C1. For a structure whose block ids all point into the blocks, and a 0-based
  range whose suras lie in the structure, whose blocks are given and whose \<open>ini\<close> is
  at most its \<open>end\<close> in the lexicographic order, \<open>_extract_seq\<close> ends without an
  exception and yields the leaves of a list \<open>cs\<close> of coordinates that holds exactly
  the coordinates of the structure between \<open>ini\<close> and \<open>end\<close>, is strictly increasing
  in the lexicographic order, and whose records carry the coordinate plus one in each
  component.
\<close>

theorem extract_seq_exact:
  assumes "wf_data d"
    and "block ini_ind = Some bi" and "block end_ind = Some be"
    and "0 \<le> sura ini_ind" and "sura end_ind < int (length (indexes d))"
    and "lex_le (coord_of ini_ind bi) (coord_of end_ind be)"
  shows "\<exists>cs. extract_seq d ini_ind end_ind = (map (leaf_at d) cs, None)
      \<and> set cs = {c. valid_coord d c \<and> lex_le (coord_of ini_ind bi) c \<and> lex_le c (coord_of end_ind be)}
      \<and> sorted_wrt lex_less cs
      \<and> map index (map (leaf_at d) cs) = map one_based cs"
proof -
  let ?cs = "filter (in_range (coord_of ini_ind bi) (coord_of end_ind be)) (coords d)"
  have "\<forall>c\<in>set ?cs. valid_coord d c" by (simp add: mem_coords)
  then have "emit d ?cs = (map (leaf_at d) ?cs, None)"
    by (rule emit_valid [OF assms(1)])
  then have "extract_seq d ini_ind end_ind = (map (leaf_at d) ?cs, None)"
    by (simp add: extract_seq_emit [OF assms(2-5)])
  moreover have "set ?cs =
      {c. valid_coord d c \<and> lex_le (coord_of ini_ind bi) c \<and> lex_le c (coord_of end_ind be)}"
    by (auto simp: mem_coords in_range_def)
  moreover have "sorted_wrt lex_less ?cs"
    by (rule sorted_wrt_filter [OF sorted_coords])
  moreover have "map index (map (leaf_at d) ?cs) = map one_based ?cs"
    by (simp add: index_leaf_at)
  ultimately show ?thesis by blast
qed

theorem extract_seq_exact_witness:
  "wf_data sample
   \<and> lex_le (0, 0, 1, 1) (1, 0, 0, 0)
   \<and> extract_seq sample \<lparr>sura = 0, verse = 0, word = 1, block = Some 1\<rparr>
        \<lparr>sura = 1, verse = 0, word = 0, block = Some 0\<rparr> =
      (map (leaf_at sample) [(0, 0, 1, 1), (0, 1, 0, 0), (0, 1, 1, 0), (0, 1, 1, 1), (1, 0, 0, 0)],
       None)"
proof -
  let ?i = "\<lparr>sura = 0, verse = 0, word = 1, block = Some 1\<rparr>"
  let ?e = "\<lparr>sura = 1, verse = 0, word = 0, block = Some 0\<rparr>"
  have wf: "wf_data sample" by (simp add: wf_data_def sample_def)
  have le: "lex_le (coord_of ?i 1) (coord_of ?e 0)" by (simp add: coord_of_def)
  have "\<exists>cs. extract_seq sample ?i ?e = (map (leaf_at sample) cs, None)
      \<and> set cs = {c. valid_coord sample c \<and> lex_le (coord_of ?i 1) c \<and> lex_le c (coord_of ?e 0)}
      \<and> sorted_wrt lex_less cs
      \<and> map index (map (leaf_at sample) cs) = map one_based cs"
    by (rule extract_seq_exact [OF wf _ _ _ _ le]) (simp_all add: sample_def)
  moreover have "extract_seq sample ?i ?e =
      (map (leaf_at sample) [(0, 0, 1, 1), (0, 1, 0, 0), (0, 1, 1, 0), (0, 1, 1, 1), (1, 0, 0, 0)],
       None)"
    by code_simp
  ultimately show ?thesis using wf by simp
qed

end
